theory Spec2Isabelle
  imports Complex_Main "HOL-Library.Word"
begin

section \<open>JavaScript numbers\<close>

text \<open>
  A JavaScript number is an IEEE 754 double. A finite double is modelled by the rational
  it denotes, and an arithmetic operation by the exact operation followed by rounding to
  the nearest double, ties to the even significand. Overflow to infinity is left out:
  every number of this program has magnitude below 32.
\<close>

definition rne :: "rat \<Rightarrow> int" where
  \<comment> \<open>round to the nearest integer, a tie goes to the even one\<close>
  "rne q = (let n = \<lfloor>q\<rfloor>; d = q - of_int n
            in if d < 1 / 2 then n
               else if 1 / 2 < d then n + 1
               else if even n then n else n + 1)"

function bexp :: "rat \<Rightarrow> int" where
  \<comment> \<open>the binary exponent \<open>e\<close> of a positive \<open>x\<close>: \<open>2 ^ e \<le> x < 2 ^ (e + 1)\<close>\<close>
  "bexp x = (if x \<le> 0 then 0
             else if x < 1 then bexp (2 * x) - 1
             else if 2 \<le> x then bexp (x / 2) + 1
             else 0)"
  by pat_completeness auto
termination
proof (relation "measure (\<lambda>x. if x < 1 then nat \<lceil>1 / x\<rceil> else nat \<lfloor>x\<rfloor>)")
  show "wf (measure (\<lambda>x::rat. if x < 1 then nat \<lceil>1 / x\<rceil> else nat \<lfloor>x\<rfloor>))"
    by simp
next
  fix x :: rat
  assume a: "\<not> x \<le> 0" "x < 1"
  then have x0: "0 < x" by simp
  show "(2 * x, x) \<in> measure (\<lambda>x. if x < 1 then nat \<lceil>1 / x\<rceil> else nat \<lfloor>x\<rfloor>)"
  proof (cases "2 * x < 1")
    case True
    define y where "y = 1 / x"
    have y2: "2 < y" using True x0 by (simp add: y_def field_simps)
    have "y \<le> of_int \<lceil>y\<rceil>" by simp
    then have "y / 2 \<le> of_int \<lceil>y\<rceil> - 1" using y2 by linarith
    then have "y / 2 \<le> of_int (\<lceil>y\<rceil> - 1)" by simp
    then have c: "\<lceil>y / 2\<rceil> \<le> \<lceil>y\<rceil> - 1" by (simp only: ceiling_le_iff)
    have e: "1 / (2 * x) = y / 2" by (simp add: y_def)
    have lt: "\<lceil>1 / (2 * x)\<rceil> < \<lceil>1 / x\<rceil>"
      unfolding e y_def [symmetric] using c by simp
    have "0 < \<lceil>1 / x\<rceil>" using x0 by (simp add: less_ceiling_iff)
    then show ?thesis using True a lt by simp
  next
    case False
    then have "\<lfloor>2 * x\<rfloor> = 1" using a by (simp add: floor_eq_iff)
    moreover have "1 < \<lceil>1 / x\<rceil>" using x0 a(2) by (simp add: less_ceiling_iff)
    ultimately show ?thesis using False a by simp
  qed
next
  fix x :: rat
  assume a: "\<not> x \<le> 0" "\<not> x < 1" "2 \<le> x"
  have "x < of_int \<lfloor>x\<rfloor> + 1" by linarith
  then have "x / 2 < of_int \<lfloor>x\<rfloor>" using a(3) by linarith
  then have "\<lfloor>x / 2\<rfloor> < \<lfloor>x\<rfloor>" by (simp only: floor_less_iff)
  moreover have "0 < \<lfloor>x\<rfloor>" using a by simp
  ultimately show "(x / 2, x) \<in> measure (\<lambda>x. if x < 1 then nat \<lceil>1 / x\<rceil> else nat \<lfloor>x\<rfloor>)"
    using a by simp
qed

declare bexp.simps [simp del]

definition ulp :: "rat \<Rightarrow> rat" where
  \<comment> \<open>the spacing of the doubles around \<open>x\<close>: 53 significant bits, subnormal below \<open>2 ^ - 1022\<close>\<close>
  "ulp x = 2 powi (max (bexp \<bar>x\<bar>) (- 1022) - 52)"

definition fl :: "rat \<Rightarrow> rat" where
  "fl x = of_int (rne (x / ulp x)) * ulp x"

definition is_double :: "rat \<Rightarrow> bool" where
  "is_double x \<longleftrightarrow> \<bar>x\<bar> < 2 ^ 1024 \<and> fl x = x"

definition js_mul :: "rat \<Rightarrow> rat \<Rightarrow> rat" where
  "js_mul x y = fl (x * y)"

definition js_add :: "rat \<Rightarrow> rat \<Rightarrow> rat" where
  "js_add x y = fl (x + y)"

definition lit_0_1 :: rat where
  \<comment> \<open>the double that the literal \<open>0.1\<close> denotes\<close>
  "lit_0_1 = 3602879701896397 / 2 ^ 55"

section \<open>Strings, arrays and errors\<close>

text \<open>
  A string is a list of characters; \<open>split('')\<close> yields its characters and
  \<open>length\<close> counts them. Characters are the 8-bit ones, which hold every residue
  symbol. \<open>Math.random()\<close> is a stream \<open>R\<close> of doubles read at a position \<open>p\<close>
  that every draw advances by one. A thrown \<open>Error\<close> is a value of the result, with
  its message. Of the backend only the outcome matters: it is unavailable, it fails (and
  the mock takes over), or it replies. Logging and the delays before a mock result are
  left out.

  \<open>predictSMILES\<close> and \<open>generateSimilarSequences\<close> are \<open>async\<close> functions. Their
  definitions below give what the body does: \<open>Inl\<close> the error it throws, \<open>Inr\<close> the
  value it returns. A call of an \<open>async\<close> function never throws: it returns a
  promise, rejected with the error the body throws or fulfilled with the value the body
  returns. \<open>call_predictSMILES\<close> and \<open>call_generateSimilarSequences\<close> give the
  completion of the call.
\<close>

datatype error = Error string

datatype 'a backend = Unavailable | Failing | Replies 'a

datatype 'a promise = Rejected error | Fulfilled 'a

datatype 'a completion = Throws error | Returns 'a

definition async :: "error + 'a \<Rightarrow> 'a promise completion" where
  "async body = Returns (case body of Inl e \<Rightarrow> Rejected e | Inr v \<Rightarrow> Fulfilled v)"

fun join :: "string \<Rightarrow> string list \<Rightarrow> string" where
  "join sep [] = []"
| "join sep [x] = x"
| "join sep (x # y # ys) = x @ sep @ join sep (y # ys)"

definition split_chars :: "string \<Rightarrow> string list" where
  "split_chars s = map (\<lambda>c. [c]) s"

definition char_at :: "string \<Rightarrow> int \<Rightarrow> string" where
  \<comment> \<open>\<open>s[i]\<close>; out of range it is \<open>undefined\<close>, which \<open>join\<close> writes as the empty string\<close>
  "char_at s i = (if 0 \<le> i \<and> i < int (length s) then [s ! nat i] else [])"

fun decimal :: "nat \<Rightarrow> string" where
  \<comment> \<open>a length, written into a template literal\<close>
  "decimal n =
     (if n div 10 = 0 then [''0123456789'' ! n]
      else decimal (n div 10) @ [''0123456789'' ! (n mod 10)])"

declare decimal.simps [simp del]

definition validAminoAcids :: string where
  "validAminoAcids = ''ACDEFGHIKLMNPQRSTVWY''"

definition invalidChars :: "string \<Rightarrow> string list" where
  \<comment> \<open>\<open>s.split('').filter(char => !validAminoAcids.includes(char))\<close>\<close>
  "invalidChars s = filter (\<lambda>c. c \<notin> set (split_chars validAminoAcids)) (split_chars s)"

section \<open>modelUtils.js\<close>

definition commonSMILES :: "string list" where
  "commonSMILES =
    [''CC(C)CC1=CC=C(C=C1)C(C)C(=O)O'',
     ''CC1=CC=C(C=C1)C2=CC(=O)C3=C(C=CC=C3O2)O'',
     ''CC1=CC=C(C=C1)C2=CC(=O)C3=C(C=CC=C3O2)O'',
     ''CC1=CC=C(C=C1)C2=CC(=O)C3=C(C=CC=C3O2)O'',
     ''CC1=CC=C(C=C1)C2=CC(=O)C3=C(C=CC=C3O2)O'',
     ''CC1=CC=C(C=C1)C2=CC(=O)C3=C(C=CC=C3O2)O'',
     ''CC1=CC=C(C=C1)C2=CC(=O)C3=C(C=CC=C3O2)O'',
     ''CC1=CC=C(C=C1)C2=CC(=O)C3=C(C=CC=C3O2)O'',
     ''CC1=CC=C(C=C1)C2=CC(=O)C3=C(C=CC=C3O2)O'',
     ''CC1=CC=C(C=C1)C2=CC(=O)C3=C(C=CC=C3O2)O'']"

definition hash_step :: "32 word \<Rightarrow> char \<Rightarrow> 32 word" where
  \<comment> \<open>\<open>a = ((a << 5) - a) + b.charCodeAt(0); return a & a\<close>: the result as an int32\<close>
  "hash_step a b = (push_bit 5 a - a) + of_nat (of_char b)"

definition hash :: "string \<Rightarrow> 32 word" where
  "hash proteinSequence = foldl hash_step 0 proteinSequence"

definition mockPredictSMILES :: "string \<Rightarrow> string" where
  "mockPredictSMILES proteinSequence =
     (let index = nat \<bar>sint (hash proteinSequence)\<bar> mod length commonSMILES
      in commonSMILES ! index)"

definition predictSMILES :: "string \<Rightarrow> string backend \<Rightarrow> error + string" where
  "predictSMILES proteinSequence b =
     (if proteinSequence = [] \<or> length proteinSequence \<noteq> 50
      then Inl (Error ''Protein sequence must be exactly 50 characters long'')
      else if length (invalidChars proteinSequence) > 0
      then Inl (Error (''Invalid amino acid characters found: ''
                        @ join '', '' (invalidChars proteinSequence)))
      else case b of
             Replies smiles \<Rightarrow> Inr smiles
           | _ \<Rightarrow> Inr (mockPredictSMILES proteinSequence))"

definition call_predictSMILES :: "string \<Rightarrow> string backend \<Rightarrow> string promise completion" where
  "call_predictSMILES proteinSequence b = async (predictSMILES proteinSequence b)"

record validation =
  isValid :: bool
  errors :: "string list"

definition validateProteinSequence :: "string \<Rightarrow> validation" where
  "validateProteinSequence s =
     (let errs =
        (if s = [] then [''Protein sequence is required'']
         else (if length s \<noteq> 50
               then [''Sequence must be exactly 50 characters long (current: ''
                       @ decimal (length s) @ '')'']
               else [])
            @ (if length (invalidChars s) > 0
               then [''Invalid amino acid characters: '' @ join '', '' (invalidChars s)]
               else []))
      in \<lparr>isValid = (length errs = 0), errors = errs\<rparr>)"

section \<open>sequenceUtils.js\<close>

record scored =
  sequence :: string
  score :: rat

fun mutate :: "(nat \<Rightarrow> rat) \<Rightarrow> string \<Rightarrow> nat \<Rightarrow> string list \<times> nat" where
  \<comment> \<open>the callback of \<open>map\<close>, run over the characters from left to right\<close>
  "mutate R [] p = ([], p)"
| "mutate R (c # cs) p =
     (if R p < lit_0_1
      then let randomIndex = \<lfloor>js_mul (R (p + 1)) (of_nat (length validAminoAcids))\<rfloor>;
               (rest, p') = mutate R cs (p + 2)
           in (char_at validAminoAcids randomIndex # rest, p')
      else let (rest, p') = mutate R cs (p + 1)
           in ([c] # rest, p'))"

fun generate :: "(nat \<Rightarrow> rat) \<Rightarrow> string \<Rightarrow> nat \<Rightarrow> nat \<Rightarrow> scored list \<times> nat" where
  \<comment> \<open>\<open>n\<close> rounds of the \<open>for\<close> loop; the entries in the order they are pushed\<close>
  "generate R baseSequence 0 p = ([], p)"
| "generate R baseSequence (Suc n) p =
     (let (chars, p1) = mutate R baseSequence p;
          modifiedSequence = join [] chars;
          mockScore = js_add (5 / 2) (js_mul (R p1) (3 / 2));
          (rest, p2) = generate R baseSequence n (p1 + 1)
      in (\<lparr>sequence = modifiedSequence, score = mockScore\<rparr> # rest, p2))"

definition compareFn :: "scored \<Rightarrow> scored \<Rightarrow> rat" where
  \<comment> \<open>\<open>(a, b) => b.score - a.score\<close>: the difference of two finite doubles has the sign
      of their exact difference\<close>
  "compareFn a b = score b - score a"

fun insert_by :: "('a \<Rightarrow> 'a \<Rightarrow> rat) \<Rightarrow> 'a \<Rightarrow> 'a list \<Rightarrow> 'a list" where
  "insert_by cmp x [] = [x]"
| "insert_by cmp x (y # ys) =
     (if cmp x y \<le> 0 then x # y # ys else y # insert_by cmp x ys)"

definition sort_by :: "('a \<Rightarrow> 'a \<Rightarrow> rat) \<Rightarrow> 'a list \<Rightarrow> 'a list" where
  \<comment> \<open>\<open>Array.prototype.sort\<close> with a comparator: a stable sort\<close>
  "sort_by cmp xs = foldr (insert_by cmp) xs []"

definition mockGenerateSequences :: "(nat \<Rightarrow> rat) \<Rightarrow> string \<Rightarrow> nat \<Rightarrow> scored list \<times> nat" where
  "mockGenerateSequences R proteinSequence p =
     (let (sequences, p') = generate R proteinSequence 5 p
      in (sort_by compareFn sequences, p'))"

definition generateSimilarSequences ::
  "(nat \<Rightarrow> rat) \<Rightarrow> string \<Rightarrow> scored list backend \<Rightarrow> nat \<Rightarrow> (error + scored list) \<times> nat" where
  "generateSimilarSequences R proteinSequence b p =
     (if proteinSequence = [] \<or> length proteinSequence \<noteq> 50
      then (Inl (Error ''Protein sequence must be exactly 50 characters long''), p)
      else if length (invalidChars proteinSequence) > 0
      then (Inl (Error (''Invalid amino acid characters found: ''
                         @ join '', '' (invalidChars proteinSequence))), p)
      else case b of
             Replies sequences \<Rightarrow> (Inr sequences, p)
           | _ \<Rightarrow> (let (sequences, p') = mockGenerateSequences R proteinSequence p
                  in (Inr sequences, p')))"

definition call_generateSimilarSequences ::
  "(nat \<Rightarrow> rat) \<Rightarrow> string \<Rightarrow> scored list backend \<Rightarrow> nat
     \<Rightarrow> scored list promise completion \<times> nat" where
  "call_generateSimilarSequences R proteinSequence b p =
     (async (fst (generateSimilarSequences R proteinSequence b p)),
      snd (generateSimilarSequences R proteinSequence b p))"

section \<open>The scoring of the specification\<close>

text \<open>
  Modelled from the spec: the substitution matrix and the position-wise alignment score
  are absent from the source. The matrix is a parameter \<open>M\<close> with integer entries; the
  score is the sum of its entries over the aligned positions.
\<close>

definition alignment_score :: "(char \<Rightarrow> char \<Rightarrow> int) \<Rightarrow> string \<Rightarrow> string \<Rightarrow> int" where
  "alignment_score M reference candidate =
     sum_list (map (\<lambda>(x, y). M x y) (zip reference candidate))"

section \<open>The random source and a sample input\<close>

definition random_source :: "(nat \<Rightarrow> rat) \<Rightarrow> bool" where
  \<comment> \<open>every value of \<open>Math.random()\<close> is a double, at least 0 and below 1\<close>
  "random_source R \<longleftrightarrow> (\<forall>i. is_double (R i) \<and> 0 \<le> R i \<and> R i < 1)"

abbreviation (input) sample :: string where
  "sample \<equiv> ''ACDEFGHIKLMNPQRSTVWYACDEFGHIKLMNPQRSTVWYACDEFGHIKL''"

definition draws_half :: "nat \<Rightarrow> rat" where
  "draws_half i = 1 / 2"

definition draws_quarter :: "nat \<Rightarrow> rat" where
  "draws_quarter i = 1 / 4"

definition draws_half_then_zero :: "nat \<Rightarrow> rat" where
  \<comment> \<open>as \<open>draws_half\<close> at the first 255 positions, another value from there on\<close>
  "draws_half_then_zero i = (if i < 255 then 1 / 2 else 0)"

definition draws_top :: "nat \<Rightarrow> rat" where
  \<comment> \<open>the draw for the first score is the largest double below 1\<close>
  "draws_top i = (if i = 50 then 1 - 1 / 2 ^ 53 else 1 / 2)"

definition draws_last :: "nat \<Rightarrow> rat" where
  \<comment> \<open>the first round keeps every character and draws 0 for its score; each later
      round replaces the first character and draws 1/2 for its score\<close>
  "draws_last i = (if i \<in> {50, 51, 103, 155, 207} then 0 else 1 / 2)"

abbreviation (input) sample_X_first :: string where
  "sample_X_first \<equiv> ''XCDEFGHIKLMNPQRSTVWYACDEFGHIKLMNPQRSTVWYACDEFGHIKL''"

abbreviation (input) sample_X_second :: string where
  "sample_X_second \<equiv> ''AXDEFGHIKLMNPQRSTVWYACDEFGHIKLMNPQRSTVWYACDEFGHIKL''"

abbreviation (input) sample_M_first :: string where
  "sample_M_first \<equiv> ''MCDEFGHIKLMNPQRSTVWYACDEFGHIKLMNPQRSTVWYACDEFGHIKL''"

section \<open>Rounding to a double\<close>

lemma rne_le: "q \<le> of_int k \<Longrightarrow> rne q \<le> k"
proof -
  assume a: "q \<le> of_int k"
  have f: "\<lfloor>q\<rfloor> \<le> k" using a by (simp add: floor_le_iff)
  show ?thesis
  proof (cases "\<lfloor>q\<rfloor> = k")
    case True
    then have "q - of_int \<lfloor>q\<rfloor> \<le> 0" using a by simp
    then show ?thesis using True by (simp add: rne_def Let_def)
  next
    case False
    then have "\<lfloor>q\<rfloor> + 1 \<le> k" using f by simp
    then show ?thesis by (simp add: rne_def Let_def)
  qed
qed

lemma rne_ge: "of_int k \<le> q \<Longrightarrow> k \<le> rne q"
proof -
  assume a: "of_int k \<le> q"
  have f: "k \<le> \<lfloor>q\<rfloor>" using a by (simp add: le_floor_iff)
  then show ?thesis by (simp add: rne_def Let_def)
qed

lemma rne_lt_half: "q < of_int k - 1 / 2 \<Longrightarrow> rne q \<le> k - 1"
proof -
  assume a: "q < of_int k - 1 / 2"
  have "q < of_int k" using a by linarith
  then have f: "\<lfloor>q\<rfloor> \<le> k - 1" by (simp add: floor_less_iff)
  show ?thesis
  proof (cases "\<lfloor>q\<rfloor> = k - 1")
    case True
    then have "q - of_int \<lfloor>q\<rfloor> < 1 / 2" using a by simp
    then show ?thesis using True by (simp add: rne_def Let_def)
  next
    case False
    then have "\<lfloor>q\<rfloor> + 1 \<le> k - 1" using f by simp
    then show ?thesis by (simp add: rne_def Let_def)
  qed
qed

lemma bexp_lower: "0 < x \<Longrightarrow> 2 powi (bexp x) \<le> x"
proof (induction x rule: bexp.induct)
  case (1 x)
  show ?case
  proof (cases "x < 1")
    case True
    then have "2 powi (bexp (2 * x)) \<le> 2 * x" using 1 by simp
    moreover have "bexp x = bexp (2 * x) - 1" using True 1(3) by (simp add: bexp.simps[of x])
    ultimately show ?thesis by (simp add: power_int_diff)
  next
    case False
    show ?thesis
    proof (cases "2 \<le> x")
      case True
      then have "2 powi (bexp (x / 2)) \<le> x / 2" using 1 False by simp
      moreover have "bexp x = bexp (x / 2) + 1" using True False 1(3) by (simp add: bexp.simps[of x])
      ultimately show ?thesis by (simp add: power_int_add)
    next
      case f2: False
      then have "bexp x = 0" using False 1(3) by (simp add: bexp.simps[of x])
      then show ?thesis using False by simp
    qed
  qed
qed

lemma bexp_upper: "0 < x \<Longrightarrow> x < 2 powi (bexp x + 1)"
proof (induction x rule: bexp.induct)
  case (1 x)
  show ?case
  proof (cases "x < 1")
    case True
    then have "2 * x < 2 powi (bexp (2 * x) + 1)" using 1 by simp
    moreover have "bexp x = bexp (2 * x) - 1" using True 1(3) by (simp add: bexp.simps[of x])
    ultimately show ?thesis by (simp add: power_int_add)
  next
    case False
    show ?thesis
    proof (cases "2 \<le> x")
      case True
      then have "x / 2 < 2 powi (bexp (x / 2) + 1)" using 1 False by simp
      moreover have "bexp x = bexp (x / 2) + 1" using True False 1(3) by (simp add: bexp.simps[of x])
      ultimately show ?thesis by (simp add: power_int_add)
    next
      case f2: False
      then have "bexp x = 0" using False 1(3) by (simp add: bexp.simps[of x])
      then show ?thesis using f2 by simp
    qed
  qed
qed

lemma bexp_less: "0 \<le> x \<Longrightarrow> x < 2 powi n \<Longrightarrow> 1 \<le> n \<Longrightarrow> bexp x \<le> n - 1"
proof (cases "x = 0")
  case True
  assume "1 \<le> n"
  moreover have "bexp 0 = 0" by (simp add: bexp.simps)
  ultimately show ?thesis using True by simp
next
  case False
  assume a: "0 \<le> x" "x < 2 powi n" "1 \<le> n"
  then have "0 < x" using False by simp
  then have "(2::rat) powi (bexp x) < 2 powi n" using bexp_lower a(2) by (meson le_less_trans)
  then have "bexp x < n" using a(3) by (intro power_int_le_imp_less_exp[of "2::rat"]) simp_all
  then show ?thesis by simp
qed

lemma ulp_pos: "0 < ulp x"
  by (simp add: ulp_def)

lemma ulp_exp: "\<bar>x\<bar> < 2 powi n \<Longrightarrow> 1 \<le> n \<Longrightarrow> \<exists>k. ulp x = 2 powi k \<and> k \<le> n - 53"
proof -
  assume a: "\<bar>x\<bar> < 2 powi n" "1 \<le> n"
  have "bexp \<bar>x\<bar> \<le> n - 1" using a by (intro bexp_less) simp_all
  then have "max (bexp \<bar>x\<bar>) (- 1022) - 52 \<le> n - 53" using a(2) by simp
  then show ?thesis unfolding ulp_def by blast
qed

lemma grid: "k \<le> e \<Longrightarrow> (2::rat) powi e = of_int (2 ^ nat (e - k)) * 2 powi k"
proof -
  assume "k \<le> e"
  then have "(2::rat) powi (e - k) = 2 ^ nat (e - k)" by (simp add: power_int_def)
  moreover have "(2::rat) powi e = 2 powi (e - k) * 2 powi k" by (simp add: power_int_add [symmetric])
  ultimately show ?thesis by simp
qed

lemma fl_le:
  assumes "x \<le> of_int m * 2 powi e" and "ulp x = 2 powi k" and "k \<le> e"
  shows "fl x \<le> of_int m * 2 powi e"
proof -
  define K where "K = m * 2 ^ nat (e - k)"
  have c: "of_int m * 2 powi e = of_int K * ulp x"
    using grid [OF assms(3)] by (simp add: K_def assms(2))
  have "x / ulp x \<le> of_int K" using assms(1) ulp_pos [of x] c by (simp add: field_simps)
  then have "rne (x / ulp x) \<le> K" by (rule rne_le)
  then have "of_int (rne (x / ulp x)) * ulp x \<le> of_int K * ulp x"
    using ulp_pos [of x] by simp
  then show ?thesis by (simp add: fl_def c)
qed

lemma fl_ge:
  assumes "of_int m * 2 powi e \<le> x" and "ulp x = 2 powi k" and "k \<le> e"
  shows "of_int m * 2 powi e \<le> fl x"
proof -
  define K where "K = m * 2 ^ nat (e - k)"
  have c: "of_int m * 2 powi e = of_int K * ulp x"
    using grid [OF assms(3)] by (simp add: K_def assms(2))
  have "of_int K \<le> x / ulp x" using assms(1) ulp_pos [of x] c by (simp add: field_simps)
  then have "K \<le> rne (x / ulp x)" by (rule rne_ge)
  then have "of_int K * ulp x \<le> of_int (rne (x / ulp x)) * ulp x"
    using ulp_pos [of x] by simp
  then show ?thesis by (simp add: fl_def c)
qed


lemma mul_3_2_range:
  assumes "0 \<le> r" and "r < 1"
  shows "0 \<le> js_mul r (3 / 2) \<and> js_mul r (3 / 2) \<le> 3 / 2"
proof -
  let ?x = "r * (3 / 2)"
  have "\<bar>?x\<bar> < 2 powi 1" using assms by simp
  then obtain k where k: "ulp ?x = 2 powi k" "k \<le> 1 - 53" using ulp_exp [of ?x 1] by auto
  have "of_int 0 * 2 powi 0 \<le> fl ?x" using assms k by (intro fl_ge [where k = k]) simp_all
  moreover have "fl ?x \<le> of_int 3 * 2 powi (- 1)" using assms k by (intro fl_le [where k = k]) simp_all
  ultimately show ?thesis by (simp add: js_mul_def)
qed

lemma mockScore_range:
  assumes "0 \<le> r" and "r < 1"
  shows "5 / 2 \<le> js_add (5 / 2) (js_mul r (3 / 2)) \<and> js_add (5 / 2) (js_mul r (3 / 2)) \<le> 4"
proof -
  define y where "y = js_mul r (3 / 2)"
  have y: "0 \<le> y" "y \<le> 3 / 2" using mul_3_2_range [OF assms] by (simp_all add: y_def)
  let ?x = "5 / 2 + y"
  have "\<bar>?x\<bar> < 2 powi 3" using y by simp
  then obtain k where k: "ulp ?x = 2 powi k" "k \<le> 3 - 53" using ulp_exp [of ?x 3] by auto
  have "of_int 5 * 2 powi (- 1) \<le> fl ?x" using y k by (intro fl_ge [where k = k]) simp_all
  moreover have "fl ?x \<le> of_int 4 * 2 powi 0" using y k by (intro fl_le [where k = k]) simp_all
  ultimately show ?thesis by (simp add: js_add_def y_def)
qed


lemma double_below_one:
  assumes "is_double r" and "0 \<le> r" and "r < 1"
  shows "r \<le> 1 - 1 / 2 ^ 53"
proof (cases "r = 0")
  case True
  then show ?thesis by simp
next
  case False
  then have r0: "0 < r" using assms(2) by simp
  have "2 powi (bexp r) \<le> r" using r0 by (rule bexp_lower)
  then have "(2::rat) powi (bexp r) < 2 powi 0" using assms(3) by simp
  then have "bexp r < 0" by (intro power_int_le_imp_less_exp [of "2::rat"]) simp_all
  then have e: "bexp r \<le> - 1" by simp
  show ?thesis
  proof (cases "bexp r = - 1")
    case True
    then have u: "ulp r = 1 / 2 ^ 53" using r0 by (simp add: ulp_def power_int_minus_divide)
    define n where "n = rne (r / ulp r)"
    have r: "r = of_int n / 2 ^ 53" using assms(1) by (simp add: is_double_def fl_def n_def u)
    then have "(of_int n :: rat) < 2 ^ 53" using assms(3) by simp
    then have "(of_int n :: rat) < of_int (2 ^ 53)" by simp
    then have "n < 2 ^ 53" by (simp only: of_int_less_iff)
    then have "n \<le> 2 ^ 53 - 1" by simp
    then have "(of_int n :: rat) \<le> of_int (2 ^ 53 - 1)" by (simp only: of_int_le_iff)
    then show ?thesis by (simp add: r field_simps)
  next
    case False
    then have "bexp r + 1 \<le> - 1" using e by simp
    then have "(2::rat) powi (bexp r + 1) \<le> 2 powi (- 1)" by (intro power_int_increasing) simp_all
    moreover have "r < 2 powi (bexp r + 1)" using r0 by (rule bexp_upper)
    ultimately have "r < 1 / 2" by (simp add: power_int_minus_divide)
    then show ?thesis by simp
  qed
qed

lemma mul_20_less:
  assumes "is_double r" and "0 \<le> r" and "r < 1"
  shows "0 \<le> js_mul r 20 \<and> js_mul r 20 < 20"
proof -
  let ?x = "r * 20"
  have r: "r \<le> 1 - 1 / 2 ^ 53" using assms by (rule double_below_one)
  have "\<bar>?x\<bar> < 2 powi 5" using assms by simp
  then obtain k where k: "ulp ?x = 2 powi k" "k \<le> 5 - 53" using ulp_exp [of ?x 5] by auto
  have lo: "of_int 0 * 2 powi 0 \<le> fl ?x" using assms k by (intro fl_ge [where k = k]) simp_all
  define K :: int where "K = 20 * 2 ^ nat (- k)"
  have p: "(2::rat) powi (- k) = 2 ^ nat (- k)" using k(2) by (simp add: power_int_def)
  have u: "1 / ulp ?x = 2 ^ nat (- k)" using p by (simp add: k(1) power_int_minus_divide)
  have "(2::rat) ^ 48 \<le> 2 ^ nat (- k)" using k(2) by (intro power_increasing) simp_all
  then have "20 / 2 ^ 53 * (2::rat) ^ 48 \<le> 20 / 2 ^ 53 * 2 ^ nat (- k)"
    by (intro mult_left_mono) simp_all
  then have g: "(5::rat) / 8 \<le> 20 / 2 ^ 53 * 2 ^ nat (- k)" by simp
  have "?x / ulp ?x = ?x * (1 / ulp ?x)" by simp
  also have "\<dots> = ?x * 2 ^ nat (- k)" by (simp only: u)
  also have "\<dots> \<le> (20 - 20 / 2 ^ 53) * 2 ^ nat (- k)" using r by (intro mult_right_mono) simp_all
  also have "\<dots> = of_int K - 20 / 2 ^ 53 * 2 ^ nat (- k)" by (simp add: K_def algebra_simps)
  also have "\<dots> < of_int K - 1 / 2" using g by linarith
  finally have "rne (?x / ulp ?x) \<le> K - 1" by (rule rne_lt_half)
  then have "of_int (rne (?x / ulp ?x)) * ulp ?x \<le> of_int (K - 1) * ulp ?x"
    using ulp_pos [of ?x] by (simp only: mult_le_cancel_right_pos of_int_le_iff)
  also have "\<dots> = 20 - ulp ?x" using u ulp_pos [of ?x] by (simp add: K_def field_simps)
  also have "\<dots> < 20" using ulp_pos [of ?x] by simp
  finally have "fl ?x < 20" by (simp add: fl_def)
  then show ?thesis using lo by (simp add: js_mul_def)
qed

lemma randomIndex_range:
  assumes "is_double r" and "0 \<le> r" and "r < 1"
  shows "0 \<le> \<lfloor>js_mul r 20\<rfloor> \<and> \<lfloor>js_mul r 20\<rfloor> < 20"
  using mul_20_less [OF assms] by (simp add: floor_less_iff)

section \<open>The mock generator, step by step\<close>

lemma join_nil: "join [] xs = concat xs"
  by (induction "[] :: string" xs rule: join.induct) simp_all

lemma mutate_shape:
  "random_source R \<Longrightarrow>
     length (fst (mutate R s p)) = length s
     \<and> (\<forall>x \<in> set (fst (mutate R s p)). \<exists>c. x = [c] \<and> (c \<in> set s \<or> c \<in> set validAminoAcids))"
proof (induction s arbitrary: p)
  case Nil
  then show ?case by simp
next
  case (Cons a s)
  have r: "is_double (R (p + 1))" "0 \<le> R (p + 1)" "R (p + 1) < 1"
    using Cons.prems by (simp_all add: random_source_def)
  have len: "length validAminoAcids = 20" by (simp add: validAminoAcids_def)
  define j where "j = \<lfloor>js_mul (R (p + 1)) 20\<rfloor>"
  have j: "0 \<le> j" "j < 20" using randomIndex_range [OF r] by (simp_all add: j_def)
  then have "nat j < length validAminoAcids" by (simp add: len)
  then have m: "validAminoAcids ! nat j \<in> set validAminoAcids" by (rule nth_mem)
  have ca: "char_at validAminoAcids j = [validAminoAcids ! nat j]"
    using j by (simp add: char_at_def len)
  show ?case
  proof (cases "R p < lit_0_1")
    case True
    obtain rest p' where e: "mutate R s (p + 2) = (rest, p')" by (cases "mutate R s (p + 2)")
    have ih: "length rest = length s"
      "\<forall>x \<in> set rest. \<exists>c. x = [c] \<and> (c \<in> set s \<or> c \<in> set validAminoAcids)"
      using Cons.IH [OF Cons.prems, of "p + 2"] e by simp_all
    have "mutate R (a # s) p = (char_at validAminoAcids j # rest, p')"
      using True e by (simp add: j_def len)
    then show ?thesis using ih ca m by auto
  next
    case False
    obtain rest p' where e: "mutate R s (p + 1) = (rest, p')" by (cases "mutate R s (p + 1)")
    have ih: "length rest = length s"
      "\<forall>x \<in> set rest. \<exists>c. x = [c] \<and> (c \<in> set s \<or> c \<in> set validAminoAcids)"
      using Cons.IH [OF Cons.prems, of "p + 1"] e by simp_all
    have "mutate R (a # s) p = ([a] # rest, p')"
      using False e by simp
    then show ?thesis using ih by auto
  qed
qed

lemma concat_singletons:
  "\<forall>x \<in> set xs. \<exists>c. x = [c] \<and> P c \<Longrightarrow>
     length (concat xs) = length xs \<and> (\<forall>c \<in> set (concat xs). P c)"
  by (induction xs) auto

lemma mutate_pos:
  "p + length s \<le> snd (mutate R s p) \<and> snd (mutate R s p) \<le> p + 2 * length s"
proof (induction s arbitrary: p)
  case Nil
  then show ?case by simp
next
  case (Cons a s)
  show ?case
    using Cons.IH [of "p + 2"] Cons.IH [of "p + 1"]
    by (auto simp: Let_def split: prod.splits)
qed

lemma mutate_unchanged:
  "\<forall>i < length s. \<not> R (p + i) < lit_0_1 \<Longrightarrow> mutate R s p = (map (\<lambda>c. [c]) s, p + length s)"
proof (induction s arbitrary: p)
  case Nil
  then show ?case by simp
next
  case (Cons a s)
  have a0: "\<not> R p < lit_0_1" using Cons.prems [rule_format, of 0] by simp
  have "\<forall>i < length s. \<not> R (p + 1 + i) < lit_0_1"
  proof (intro allI impI)
    fix i assume "i < length s"
    then show "\<not> R (p + 1 + i) < lit_0_1"
      using Cons.prems [rule_format, of "i + 1"] by (simp add: add.assoc)
  qed
  then have "mutate R s (p + 1) = (map (\<lambda>c. [c]) s, p + 1 + length s)" by (rule Cons.IH)
  then show ?case using a0 by simp
qed

lemma join_chars: "join [] (map (\<lambda>c. [c]) s) = s"
  by (induction s) (simp_all add: join_nil)

lemma generate_Suc:
  "generate R s (Suc n) p =
     (\<lparr>sequence = join [] (fst (mutate R s p)),
       score = js_add (5 / 2) (js_mul (R (snd (mutate R s p))) (3 / 2))\<rparr>
        # fst (generate R s n (snd (mutate R s p) + 1)),
      snd (generate R s n (snd (mutate R s p) + 1)))"
  by (simp add: case_prod_beta Let_def)

lemma generate_unchanged:
  "\<forall>i < length s. \<not> R (p + i) < lit_0_1 \<Longrightarrow>
     generate R s (Suc n) p =
       (\<lparr>sequence = s, score = js_add (5 / 2) (js_mul (R (p + length s)) (3 / 2))\<rparr>
          # fst (generate R s n (p + length s + 1)),
        snd (generate R s n (p + length s + 1)))"
  by (simp only: generate_Suc mutate_unchanged join_chars fst_conv snd_conv)

lemma generate_length: "length (fst (generate R s n p)) = n"
  by (induction n arbitrary: p) (simp_all add: generate_Suc del: generate.simps(2))

lemma generate_pos:
  "p + n * (length s + 1) \<le> snd (generate R s n p)
   \<and> snd (generate R s n p) \<le> p + n * (2 * length s + 1)"
proof (induction n arbitrary: p)
  case 0
  then show ?case by simp
next
  case (Suc n)
  define q where "q = snd (mutate R s p)"
  have q: "p + length s \<le> q" "q \<le> p + 2 * length s" using mutate_pos [of p s R] by (simp_all add: q_def)
  have "snd (generate R s (Suc n) p) = snd (generate R s n (q + 1))"
    by (simp add: generate_Suc q_def del: generate.simps(2))
  then show ?case using Suc.IH [of "q + 1"] q by simp
qed

lemma generate_entries:
  assumes "random_source R"
  shows "\<forall>c \<in> set (fst (generate R s n p)).
           length (sequence c) = length s
           \<and> set (sequence c) \<subseteq> set s \<union> set validAminoAcids
           \<and> 5 / 2 \<le> score c \<and> score c \<le> 4"
proof (induction n arbitrary: p)
  case 0
  then show ?case by simp
next
  case (Suc n)
  define q where "q = snd (mutate R s p)"
  have sh: "length (fst (mutate R s p)) = length s"
    "\<forall>x \<in> set (fst (mutate R s p)). \<exists>c. x = [c] \<and> (c \<in> set s \<or> c \<in> set validAminoAcids)"
    using mutate_shape [OF assms, of s p] by simp_all
  have cs: "length (concat (fst (mutate R s p))) = length (fst (mutate R s p))"
    "\<forall>c \<in> set (concat (fst (mutate R s p))). c \<in> set s \<or> c \<in> set validAminoAcids"
    using concat_singletons [OF sh(2)] by simp_all
  have r: "0 \<le> R q" "R q < 1" using assms by (simp_all add: random_source_def)
  have sc: "5 / 2 \<le> js_add (5 / 2) (js_mul (R q) (3 / 2))"
    "js_add (5 / 2) (js_mul (R q) (3 / 2)) \<le> 4"
    using mockScore_range [OF r] by simp_all
  show ?case
    using Suc.IH [of "q + 1"] sh(1) cs sc
    by (auto simp: generate_Suc join_nil q_def simp del: generate.simps(2))
qed

lemma set_insert_by: "set (insert_by cmp x ys) = insert x (set ys)"
  by (induction ys) auto

lemma set_sort_by: "set (sort_by cmp xs) = set xs"
  by (induction xs) (simp_all add: sort_by_def set_insert_by)

lemma length_insert_by: "length (insert_by cmp x ys) = Suc (length ys)"
  by (induction ys) simp_all

lemma length_sort_by: "length (sort_by cmp xs) = length xs"
  by (induction xs) (simp_all add: sort_by_def length_insert_by)

lemma sorted_insert_by:
  "sorted_wrt (\<lambda>a b. score b \<le> score a) ys \<Longrightarrow>
     sorted_wrt (\<lambda>a b. score b \<le> score a) (insert_by compareFn x ys)"
  by (induction ys) (auto simp: compareFn_def set_insert_by)

lemma sorted_sort_by: "sorted_wrt (\<lambda>a b. score b \<le> score a) (sort_by compareFn xs)"
  by (induction xs) (simp_all add: sort_by_def sorted_insert_by)

lemma filter_insert_by:
  "filter (\<lambda>c. score c = v) (insert_by compareFn x ys)
     = (if score x = v then x # filter (\<lambda>c. score c = v) ys else filter (\<lambda>c. score c = v) ys)"
  by (induction ys) (auto simp: compareFn_def)

lemma filter_sort_by:
  "filter (\<lambda>c. score c = v) (sort_by compareFn xs) = filter (\<lambda>c. score c = v) xs"
  by (induction xs) (simp_all add: sort_by_def filter_insert_by)

section \<open>Runs on the sample input\<close>

lemma generate_first_mutated:
  assumes "R p < lit_0_1" and "\<forall>i < length cs. \<not> R (p + 2 + i) < lit_0_1"
  shows "generate R (c # cs) (Suc n) p =
     (\<lparr>sequence = char_at validAminoAcids \<lfloor>js_mul (R (p + 1)) 20\<rfloor> @ cs,
       score = js_add (5 / 2) (js_mul (R (p + 2 + length cs)) (3 / 2))\<rparr>
        # fst (generate R (c # cs) n (p + 2 + length cs + 1)),
      snd (generate R (c # cs) n (p + 2 + length cs + 1)))"
proof -
  have t: "mutate R cs (p + 2) = (map (\<lambda>c. [c]) cs, p + 2 + length cs)"
    using assms(2) by (rule mutate_unchanged)
  have len: "length validAminoAcids = 20" by (simp add: validAminoAcids_def)
  have m: "mutate R (c # cs) p
       = (char_at validAminoAcids \<lfloor>js_mul (R (p + 1)) 20\<rfloor> # map (\<lambda>c. [c]) cs, p + 2 + length cs)"
    using assms(1) t by (simp add: len)
  have j: "join [] (char_at validAminoAcids \<lfloor>js_mul (R (p + 1)) 20\<rfloor> # map (\<lambda>c. [c]) cs)
       = char_at validAminoAcids \<lfloor>js_mul (R (p + 1)) 20\<rfloor> @ cs"
    using join_chars [of cs] by (simp add: join_nil)
  show ?thesis by (simp only: generate_Suc m j fst_conv snd_conv)
qed

lemma score_half: "js_add (5 / 2) (js_mul (1 / 2) (3 / 2)) = 13 / 4"
  by code_simp

lemma score_quarter: "js_add (5 / 2) (js_mul (1 / 4) (3 / 2)) = 23 / 8"
  by code_simp

lemma score_zero: "js_add (5 / 2) (js_mul 0 (3 / 2)) = 5 / 2"
  by code_simp

lemma index_half: "char_at validAminoAcids \<lfloor>js_mul (1 / 2) 20\<rfloor> = ''M''"
  by code_simp

lemma lit_0_1_nearest: "fl (1 / 10) = lit_0_1"
  by code_simp

lemma mul_top: "js_mul (1 - 1 / 2 ^ 53) (3 / 2) = 3 / 2 - 1 / 2 ^ 52"
  by code_simp

lemma double_half: "is_double (1 / 2)"
proof -
  have "fl (1 / 2) = 1 / 2" by code_simp
  then show ?thesis by (simp add: is_double_def)
qed

lemma double_top: "is_double (1 - 1 / 2 ^ 53)"
proof -
  have "fl (1 - 1 / 2 ^ 53) = 1 - 1 / 2 ^ 53" by code_simp
  then show ?thesis by (simp add: is_double_def)
qed

lemma sort_sorted:
  "sorted_wrt (\<lambda>a b. score b \<le> score a) xs \<Longrightarrow> sort_by compareFn xs = xs"
proof (induction xs)
  case Nil
  then show ?case by (simp add: sort_by_def)
next
  case (Cons x xs)
  then have "sort_by compareFn xs = xs" by simp
  then have "sort_by compareFn (x # xs) = insert_by compareFn x xs" by (simp add: sort_by_def)
  also have "\<dots> = x # xs" using Cons.prems by (cases xs) (simp_all add: compareFn_def)
  finally show ?case .
qed

lemma half_ge: "\<not> (1 / 2 :: rat) < lit_0_1"
  by (simp add: lit_0_1_def)

lemma quarter_ge: "\<not> (1 / 4 :: rat) < lit_0_1"
  by (simp add: lit_0_1_def)

lemma top_ge: "\<not> (1 - 1 / 2 ^ 53 :: rat) < lit_0_1"
  by (simp add: lit_0_1_def)

lemma zero_lt: "(0 :: rat) < lit_0_1"
  by (simp add: lit_0_1_def)

lemma upt5: "[0..<5] = [0, 1, 2, 3, 4 :: nat]"
  by code_simp

lemma generate_all_unchanged:
  assumes "\<forall>i. \<not> R i < lit_0_1"
  shows "generate R s n p =
     (map (\<lambda>k. \<lparr>sequence = s,
                 score = js_add (5 / 2) (js_mul (R (p + k * (length s + 1) + length s)) (3 / 2))\<rparr>)
        [0..<n],
      p + n * (length s + 1))"
proof (induction n arbitrary: p)
  case 0
  then show ?case by simp
next
  case (Suc n)
  have u: "\<forall>i < length s. \<not> R (p + i) < lit_0_1" using assms by simp
  have l: "[0..<Suc n] = 0 # map Suc [0..<n]"
    by (simp only: map_Suc_upt upt_conv_Cons [OF zero_less_Suc])
  show ?case
    unfolding generate_unchanged [OF u] Suc.IH l
    by (simp add: algebra_simps)
qed

lemma five: "(5 :: nat) = Suc (Suc (Suc (Suc (Suc 0))))"
  by simp

lemma length_sample: "length sample = 50"
  by simp

lemma generate_sample_unchanged:
  assumes "\<forall>i. \<not> R i < lit_0_1"
  shows "generate R sample 5 0 =
     ([\<lparr>sequence = sample, score = js_add (5 / 2) (js_mul (R 50) (3 / 2))\<rparr>,
       \<lparr>sequence = sample, score = js_add (5 / 2) (js_mul (R 101) (3 / 2))\<rparr>,
       \<lparr>sequence = sample, score = js_add (5 / 2) (js_mul (R 152) (3 / 2))\<rparr>,
       \<lparr>sequence = sample, score = js_add (5 / 2) (js_mul (R 203) (3 / 2))\<rparr>,
       \<lparr>sequence = sample, score = js_add (5 / 2) (js_mul (R 254) (3 / 2))\<rparr>], 255)"
proof -
  have "generate R sample 5 0 =
     (map (\<lambda>k. \<lparr>sequence = sample,
                 score = js_add (5 / 2)
                   (js_mul (R (0 + k * (length sample + 1) + length sample)) (3 / 2))\<rparr>)
        [0..<5],
      0 + 5 * (length sample + 1))"
    by (rule generate_all_unchanged [OF assms])
  then show ?thesis unfolding length_sample upt5 by simp
qed

lemma mock_half:
  "mockGenerateSequences draws_half sample 0
     = ([\<lparr>sequence = sample, score = 13 / 4\<rparr>, \<lparr>sequence = sample, score = 13 / 4\<rparr>,
         \<lparr>sequence = sample, score = 13 / 4\<rparr>, \<lparr>sequence = sample, score = 13 / 4\<rparr>,
         \<lparr>sequence = sample, score = 13 / 4\<rparr>], 255)"
proof -
  have nm: "\<forall>i. \<not> draws_half i < lit_0_1" using half_ge by (simp add: draws_half_def)
  have g: "generate draws_half sample 5 0
     = ([\<lparr>sequence = sample, score = 13 / 4\<rparr>, \<lparr>sequence = sample, score = 13 / 4\<rparr>,
         \<lparr>sequence = sample, score = 13 / 4\<rparr>, \<lparr>sequence = sample, score = 13 / 4\<rparr>,
         \<lparr>sequence = sample, score = 13 / 4\<rparr>], 255)"
    unfolding generate_sample_unchanged [OF nm] draws_half_def score_half by simp
  show ?thesis
    unfolding mockGenerateSequences_def g by (simp add: sort_sorted)
qed

lemma mock_quarter:
  "mockGenerateSequences draws_quarter sample 0
     = ([\<lparr>sequence = sample, score = 23 / 8\<rparr>, \<lparr>sequence = sample, score = 23 / 8\<rparr>,
         \<lparr>sequence = sample, score = 23 / 8\<rparr>, \<lparr>sequence = sample, score = 23 / 8\<rparr>,
         \<lparr>sequence = sample, score = 23 / 8\<rparr>], 255)"
proof -
  have nm: "\<forall>i. \<not> draws_quarter i < lit_0_1"
    using quarter_ge by (simp add: draws_quarter_def)
  have g: "generate draws_quarter sample 5 0
     = ([\<lparr>sequence = sample, score = 23 / 8\<rparr>, \<lparr>sequence = sample, score = 23 / 8\<rparr>,
         \<lparr>sequence = sample, score = 23 / 8\<rparr>, \<lparr>sequence = sample, score = 23 / 8\<rparr>,
         \<lparr>sequence = sample, score = 23 / 8\<rparr>], 255)"
    unfolding generate_sample_unchanged [OF nm] draws_quarter_def score_quarter by simp
  show ?thesis
    unfolding mockGenerateSequences_def g by (simp add: sort_sorted)
qed

lemma score_draws_top: "js_add (5 / 2) (js_mul (draws_top 50) (3 / 2)) = 4"
  by code_simp

lemma draws_top_other: "i \<noteq> 50 \<Longrightarrow> draws_top i = 1 / 2"
  by (simp add: draws_top_def)

lemma mock_top:
  "mockGenerateSequences draws_top sample 0
     = ([\<lparr>sequence = sample, score = 4\<rparr>, \<lparr>sequence = sample, score = 13 / 4\<rparr>,
         \<lparr>sequence = sample, score = 13 / 4\<rparr>, \<lparr>sequence = sample, score = 13 / 4\<rparr>,
         \<lparr>sequence = sample, score = 13 / 4\<rparr>], 255)"
proof -
  have nm: "\<forall>i. \<not> draws_top i < lit_0_1"
    using half_ge top_ge by (simp add: draws_top_def)
  have g: "generate draws_top sample 5 0
     = ([\<lparr>sequence = sample, score = 4\<rparr>, \<lparr>sequence = sample, score = 13 / 4\<rparr>,
         \<lparr>sequence = sample, score = 13 / 4\<rparr>, \<lparr>sequence = sample, score = 13 / 4\<rparr>,
         \<lparr>sequence = sample, score = 13 / 4\<rparr>], 255)"
    unfolding generate_sample_unchanged [OF nm] score_draws_top
    by (simp add: draws_top_other score_half)
  show ?thesis
    unfolding mockGenerateSequences_def g by (simp add: sort_sorted)
qed

lemma last_round:
  assumes "p \<in> {51, 103, 155, 207}"
  shows "generate draws_last sample (Suc n) p =
     (\<lparr>sequence = sample_M_first, score = 13 / 4\<rparr> # fst (generate draws_last sample n (p + 52)),
      snd (generate draws_last sample n (p + 52)))"
proof -
  let ?cs = "''CDEFGHIKLMNPQRSTVWYACDEFGHIKLMNPQRSTVWYACDEFGHIKL''"
  have a: "draws_last p < lit_0_1" using assms zero_lt by (auto simp: draws_last_def)
  have b: "\<forall>i < length ?cs. \<not> draws_last (p + 2 + i) < lit_0_1"
    using assms half_ge by (auto simp: draws_last_def)
  have c: "draws_last (p + 1) = 1 / 2" using assms by (auto simp: draws_last_def)
  have d: "draws_last (p + 2 + length ?cs) = 1 / 2" using assms by (auto simp: draws_last_def)
  have e: "p + 2 + length ?cs + 1 = p + 52" by simp
  show ?thesis
    unfolding generate_first_mutated [OF a b] c d e index_half score_half by simp
qed

lemma mock_last:
  "mockGenerateSequences draws_last sample 0
     = ([\<lparr>sequence = sample_M_first, score = 13 / 4\<rparr>,
         \<lparr>sequence = sample_M_first, score = 13 / 4\<rparr>,
         \<lparr>sequence = sample_M_first, score = 13 / 4\<rparr>,
         \<lparr>sequence = sample_M_first, score = 13 / 4\<rparr>,
         \<lparr>sequence = sample, score = 5 / 2\<rparr>], 259)"
proof -
  have ls: "length sample = 50" by simp
  have u: "\<forall>i < length sample. \<not> draws_last (0 + i) < lit_0_1"
    using half_ge by (auto simp: draws_last_def)
  have r0: "generate draws_last sample (Suc n) 0 =
      (\<lparr>sequence = sample, score = 5 / 2\<rparr> # fst (generate draws_last sample n 51),
       snd (generate draws_last sample n 51))" for n
    unfolding generate_unchanged [OF u] ls by (simp add: draws_last_def score_zero)
  have r1: "generate draws_last sample (Suc n) 51 =
      (\<lparr>sequence = sample_M_first, score = 13 / 4\<rparr> # fst (generate draws_last sample n 103),
       snd (generate draws_last sample n 103))" for n
    using last_round [of 51 n] by simp
  have r2: "generate draws_last sample (Suc n) 103 =
      (\<lparr>sequence = sample_M_first, score = 13 / 4\<rparr> # fst (generate draws_last sample n 155),
       snd (generate draws_last sample n 155))" for n
    using last_round [of 103 n] by simp
  have r3: "generate draws_last sample (Suc n) 155 =
      (\<lparr>sequence = sample_M_first, score = 13 / 4\<rparr> # fst (generate draws_last sample n 207),
       snd (generate draws_last sample n 207))" for n
    using last_round [of 155 n] by simp
  have r4: "generate draws_last sample (Suc n) 207 =
      (\<lparr>sequence = sample_M_first, score = 13 / 4\<rparr> # fst (generate draws_last sample n 259),
       snd (generate draws_last sample n 259))" for n
    using last_round [of 207 n] by simp
  have g: "generate draws_last sample 5 0
     = ([\<lparr>sequence = sample, score = 5 / 2\<rparr>,
         \<lparr>sequence = sample_M_first, score = 13 / 4\<rparr>,
         \<lparr>sequence = sample_M_first, score = 13 / 4\<rparr>,
         \<lparr>sequence = sample_M_first, score = 13 / 4\<rparr>,
         \<lparr>sequence = sample_M_first, score = 13 / 4\<rparr>], 259)"
    unfolding five r0 r1 r2 r3 r4 by simp
  show ?thesis
    unfolding mockGenerateSequences_def g by (simp add: sort_by_def compareFn_def)
qed

section \<open>Auxiliary facts\<close>

lemma invalidChars_empty_iff:
  "invalidChars s = [] \<longleftrightarrow> (\<forall>c \<in> set s. c \<in> set validAminoAcids)"
  by (auto simp: invalidChars_def split_chars_def filter_empty_conv)

lemma invalidChars_filter:
  "invalidChars s = map (\<lambda>c. [c]) (filter (\<lambda>c. c \<notin> set validAminoAcids) s)"
  by (induction s) (auto simp: invalidChars_def split_chars_def)

lemma filter_X_first: "filter (\<lambda>c. c \<notin> set validAminoAcids) sample_X_first = ''X''"
  by (simp add: validAminoAcids_def)

lemma filter_X_second: "filter (\<lambda>c. c \<notin> set validAminoAcids) sample_X_second = ''X''"
  by (simp add: validAminoAcids_def)

lemma filter_X: "filter (\<lambda>c. c \<notin> set validAminoAcids) ''X'' = ''X''"
  by (simp add: validAminoAcids_def)

lemma mock_fst: "fst (mockGenerateSequences R s p) = sort_by compareFn (fst (generate R s 5 p))"
  by (simp add: mockGenerateSequences_def case_prod_beta)

lemma mock_snd: "snd (mockGenerateSequences R s p) = snd (generate R s 5 p)"
  by (simp add: mockGenerateSequences_def case_prod_beta)

lemma not_int_13_4: "(of_int n :: rat) \<noteq> 13 / 4"
proof
  assume "(of_int n :: rat) = 13 / 4"
  then have "(of_int (4 * n) :: rat) = of_int 13" by simp
  then have "4 * n = 13" by (simp only: of_int_eq_iff)
  then show False by presburger
qed

lemma not_int_5_2: "(of_int n :: rat) \<noteq> 5 / 2"
proof
  assume "(of_int n :: rat) = 5 / 2"
  then have "(of_int (2 * n) :: rat) = of_int 5" by simp
  then have "2 * n = 5" by (simp only: of_int_eq_iff)
  then show False by presburger
qed

lemma hd_max:
  assumes "sorted_wrt (\<lambda>a b. score b \<le> score a) xs" and "d \<in> set xs"
  shows "score d \<le> score (hd xs)"
  using assms by (cases xs) auto

section \<open>Draws and residues\<close>

lemma mutate_snd_Cons:
  "snd (mutate R (c # cs) p) =
     (if R p < lit_0_1 then snd (mutate R cs (p + 2)) else snd (mutate R cs (p + 1)))"
  by (simp add: case_prod_beta Let_def)

lemma mutate_fst_Cons:
  "fst (mutate R (c # cs) p) =
     (if R p < lit_0_1
      then char_at validAminoAcids \<lfloor>js_mul (R (p + 1)) (of_nat (length validAminoAcids))\<rfloor>
             # fst (mutate R cs (p + 2))
      else [c] # fst (mutate R cs (p + 1)))"
  by (simp add: case_prod_beta Let_def)

lemma mutate_drawn_local:
  "\<forall>i. p \<le> i \<and> i < snd (mutate R1 s p) \<longrightarrow> R1 i = R2 i \<Longrightarrow>
     mutate R1 s p = mutate R2 s p"
proof (induction s arbitrary: p)
  case Nil
  show ?case by simp
next
  case (Cons c cs)
  define E where "E = snd (mutate R1 (c # cs) p)"
  have prem: "R1 i = R2 i" if "p \<le> i" and "i < E" for i
    using Cons.prems that unfolding E_def by blast
  have lo: "p + 1 + length cs \<le> E"
    unfolding E_def using mutate_pos [of p "c # cs" R1] by simp
  have a0: "R1 p = R2 p" using lo by (intro prem) simp_all
  show ?case
  proof (cases "R1 p < lit_0_1")
    case True
    then have t2: "R2 p < lit_0_1" using a0 by simp
    have e: "E = snd (mutate R1 cs (p + 2))"
      unfolding E_def mutate_snd_Cons using True by simp
    have "p + 2 + length cs \<le> snd (mutate R1 cs (p + 2))"
      using mutate_pos [of "p + 2" cs R1] by blast
    then have "p + 1 < E" unfolding e by simp
    then have a1: "R1 (p + 1) = R2 (p + 1)" by (intro prem) simp_all
    have "\<forall>i. p + 2 \<le> i \<and> i < snd (mutate R1 cs (p + 2)) \<longrightarrow> R1 i = R2 i"
    proof (intro allI impI)
      fix i assume "p + 2 \<le> i \<and> i < snd (mutate R1 cs (p + 2))"
      then have "p \<le> i" and "i < E" unfolding e by simp_all
      then show "R1 i = R2 i" by (rule prem)
    qed
    then have ih: "mutate R1 cs (p + 2) = mutate R2 cs (p + 2)" by (rule Cons.IH)
    have "fst (mutate R1 (c # cs) p) = fst (mutate R2 (c # cs) p)"
      unfolding mutate_fst_Cons using True t2 a1 ih by simp
    moreover have "snd (mutate R1 (c # cs) p) = snd (mutate R2 (c # cs) p)"
      unfolding mutate_snd_Cons using True t2 ih by simp
    ultimately show ?thesis by (rule prod_eqI)
  next
    case False
    then have f2: "\<not> R2 p < lit_0_1" using a0 by simp
    have e: "E = snd (mutate R1 cs (p + 1))"
      unfolding E_def mutate_snd_Cons using False by simp
    have "\<forall>i. p + 1 \<le> i \<and> i < snd (mutate R1 cs (p + 1)) \<longrightarrow> R1 i = R2 i"
    proof (intro allI impI)
      fix i assume "p + 1 \<le> i \<and> i < snd (mutate R1 cs (p + 1))"
      then have "p \<le> i" and "i < E" unfolding e by simp_all
      then show "R1 i = R2 i" by (rule prem)
    qed
    then have ih: "mutate R1 cs (p + 1) = mutate R2 cs (p + 1)" by (rule Cons.IH)
    have "fst (mutate R1 (c # cs) p) = fst (mutate R2 (c # cs) p)"
      unfolding mutate_fst_Cons using False f2 ih by simp
    moreover have "snd (mutate R1 (c # cs) p) = snd (mutate R2 (c # cs) p)"
      unfolding mutate_snd_Cons using False f2 ih by simp
    ultimately show ?thesis by (rule prod_eqI)
  qed
qed


lemma generate_snd_Suc:
  "snd (generate R s (Suc n) p) = snd (generate R s n (snd (mutate R s p) + 1))"
  by (simp only: generate_Suc snd_conv)

lemma generate_fst_Suc:
  "fst (generate R s (Suc n) p) =
     \<lparr>sequence = join [] (fst (mutate R s p)),
      score = js_add (5 / 2) (js_mul (R (snd (mutate R s p))) (3 / 2))\<rparr>
       # fst (generate R s n (snd (mutate R s p) + 1))"
  by (simp only: generate_Suc fst_conv)

lemma generate_snd_ge: "p \<le> snd (generate R s n p)"
  using generate_pos [of p n s R] by simp

lemma generate_drawn_local:
  "\<forall>i. p \<le> i \<and> i < snd (generate R1 s n p) \<longrightarrow> R1 i = R2 i \<Longrightarrow>
     generate R1 s n p = generate R2 s n p"
proof (induction n arbitrary: p)
  case 0
  show ?case by simp
next
  case (Suc n)
  define q where "q = snd (mutate R1 s p)"
  define E where "E = snd (generate R1 s (Suc n) p)"
  have prem: "R1 i = R2 i" if "p \<le> i" and "i < E" for i
    using Suc.prems that unfolding E_def by blast
  have pq: "p \<le> q" unfolding q_def using mutate_pos [of p s R1] by simp
  have e: "E = snd (generate R1 s n (q + 1))"
    unfolding E_def q_def by (rule generate_snd_Suc)
  have qe: "q + 1 \<le> E" unfolding e by (rule generate_snd_ge)
  have "\<forall>i. p \<le> i \<and> i < snd (mutate R1 s p) \<longrightarrow> R1 i = R2 i"
  proof (intro allI impI)
    fix i assume "p \<le> i \<and> i < snd (mutate R1 s p)"
    then have "p \<le> i" and "i < E" using qe unfolding q_def by simp_all
    then show "R1 i = R2 i" by (rule prem)
  qed
  then have m: "mutate R1 s p = mutate R2 s p" by (rule mutate_drawn_local)
  then have q2: "snd (mutate R2 s p) = q" by (simp only: q_def)
  have rq: "R1 q = R2 q" using pq qe by (intro prem) simp_all
  have "\<forall>i. q + 1 \<le> i \<and> i < snd (generate R1 s n (q + 1)) \<longrightarrow> R1 i = R2 i"
  proof (intro allI impI)
    fix i assume "q + 1 \<le> i \<and> i < snd (generate R1 s n (q + 1))"
    then have "p \<le> i" and "i < E" using pq unfolding e by simp_all
    then show "R1 i = R2 i" by (rule prem)
  qed
  then have ih: "generate R1 s n (q + 1) = generate R2 s n (q + 1)" by (rule Suc.IH)
  have "fst (generate R1 s (Suc n) p) = fst (generate R2 s (Suc n) p)"
    unfolding generate_fst_Suc q2 q_def [symmetric] m [symmetric] using rq ih by simp
  moreover have "snd (generate R1 s (Suc n) p) = snd (generate R2 s (Suc n) p)"
    unfolding generate_snd_Suc q2 q_def [symmetric] using ih by simp
  ultimately show ?case by (rule prod_eqI)
qed

lemma generate_scores_drawn:
  "\<forall>c \<in> set (fst (generate R s n p)).
     \<exists>i. p \<le> i \<and> i < snd (generate R s n p)
         \<and> score c = js_add (5 / 2) (js_mul (R i) (3 / 2))"
proof (induction n arbitrary: p)
  case 0
  show ?case by simp
next
  case (Suc n)
  define q where "q = snd (mutate R s p)"
  have pq: "p \<le> q" unfolding q_def using mutate_pos [of p s R] by simp
  have e: "snd (generate R s (Suc n) p) = snd (generate R s n (q + 1))"
    unfolding q_def by (rule generate_snd_Suc)
  have qe: "q + 1 \<le> snd (generate R s n (q + 1))" by (rule generate_snd_ge)
  have f: "fst (generate R s (Suc n) p) =
      \<lparr>sequence = join [] (fst (mutate R s p)),
       score = js_add (5 / 2) (js_mul (R q) (3 / 2))\<rparr> # fst (generate R s n (q + 1))"
    unfolding q_def by (rule generate_fst_Suc)
  show ?case
  proof
    fix c assume "c \<in> set (fst (generate R s (Suc n) p))"
    then consider "score c = js_add (5 / 2) (js_mul (R q) (3 / 2))"
      | "c \<in> set (fst (generate R s n (q + 1)))"
      unfolding f by auto
    then show "\<exists>i. p \<le> i \<and> i < snd (generate R s (Suc n) p)
                 \<and> score c = js_add (5 / 2) (js_mul (R i) (3 / 2))"
    proof cases
      case 1
      then show ?thesis unfolding e using pq qe by (intro exI [of _ q]) simp
    next
      case 2
      then obtain i where i: "q + 1 \<le> i" "i < snd (generate R s n (q + 1))"
        "score c = js_add (5 / 2) (js_mul (R i) (3 / 2))"
        using Suc.IH [of "q + 1"] by blast
      then show ?thesis unfolding e using pq by (intro exI [of _ i]) simp
    qed
  qed
qed


lemma mutate_snd_length:
  "length s' = length s \<Longrightarrow> snd (mutate R s' p) = snd (mutate R s p)"
proof (induction s arbitrary: s' p)
  case Nil
  then show ?case by simp
next
  case (Cons c cs)
  then obtain c' cs' where s': "s' = c' # cs'" and l: "length cs' = length cs"
    by (cases s') auto
  have i2: "snd (mutate R cs' (p + 2)) = snd (mutate R cs (p + 2))" using l by (rule Cons.IH)
  have i1: "snd (mutate R cs' (p + 1)) = snd (mutate R cs (p + 1))" using l by (rule Cons.IH)
  show ?case unfolding s' mutate_snd_Cons i1 i2 by (rule refl)
qed

lemma generate_scores_length:
  "length s' = length s \<Longrightarrow>
     map score (fst (generate R s' n p)) = map score (fst (generate R s n p))
     \<and> snd (generate R s' n p) = snd (generate R s n p)"
proof (induction n arbitrary: p)
  case 0
  show ?case by simp
next
  case (Suc n)
  have q: "snd (mutate R s' p) = snd (mutate R s p)"
    using Suc.prems by (rule mutate_snd_length)
  have ih: "map score (fst (generate R s' n (snd (mutate R s p) + 1)))
        = map score (fst (generate R s n (snd (mutate R s p) + 1)))"
    "snd (generate R s' n (snd (mutate R s p) + 1)) = snd (generate R s n (snd (mutate R s p) + 1))"
    using Suc.IH [OF Suc.prems, of "snd (mutate R s p) + 1"] by blast+
  show ?case unfolding generate_fst_Suc generate_snd_Suc q using ih by simp
qed

lemma map_score_insert_by:
  "score x = score y \<Longrightarrow> map score xs = map score ys \<Longrightarrow>
     map score (insert_by compareFn x xs) = map score (insert_by compareFn y ys)"
proof (induction xs arbitrary: ys)
  case Nil
  then show ?case by simp
next
  case (Cons a xs)
  then obtain b ys' where ys: "ys = b # ys'" and ab: "score a = score b"
    and r: "map score xs = map score ys'"
    by (cases ys) auto
  have ih: "map score (insert_by compareFn x xs) = map score (insert_by compareFn y ys')"
    using Cons.prems(1) r by (rule Cons.IH)
  show ?case
  proof (cases "compareFn x a \<le> 0")
    case True
    then have "compareFn y b \<le> 0" using ab Cons.prems(1) by (simp add: compareFn_def)
    then show ?thesis unfolding ys using True ab r Cons.prems(1) by simp
  next
    case False
    then have "\<not> compareFn y b \<le> 0" using ab Cons.prems(1) by (simp add: compareFn_def)
    then show ?thesis unfolding ys using False ab ih by simp
  qed
qed

lemma map_score_sort_by:
  "map score xs = map score ys \<Longrightarrow>
     map score (sort_by compareFn xs) = map score (sort_by compareFn ys)"
proof (induction xs arbitrary: ys)
  case Nil
  then show ?case by (simp add: sort_by_def)
next
  case (Cons a xs)
  then obtain b ys' where ys: "ys = b # ys'" and ab: "score a = score b"
    and r: "map score xs = map score ys'"
    by (cases ys) auto
  have "map score (sort_by compareFn xs) = map score (sort_by compareFn ys')"
    using r by (rule Cons.IH)
  with ab have "map score (insert_by compareFn a (sort_by compareFn xs))
       = map score (insert_by compareFn b (sort_by compareFn ys'))"
    by (rule map_score_insert_by)
  then show ?case unfolding ys by (simp add: sort_by_def)
qed

lemma mock_scores_length:
  assumes "length s' = length s"
  shows "map score (fst (mockGenerateSequences R s' p)) = map score (fst (mockGenerateSequences R s p))"
proof -
  have "map score (fst (generate R s' 5 p)) = map score (fst (generate R s 5 p))"
    using generate_scores_length [OF assms] by blast
  then show ?thesis unfolding mock_fst by (rule map_score_sort_by)
qed

lemma mock_scores_drawn:
  "\<forall>c \<in> set (fst (mockGenerateSequences R s p)).
     \<exists>i. p \<le> i \<and> i < snd (mockGenerateSequences R s p)
         \<and> score c = js_add (5 / 2) (js_mul (R i) (3 / 2))"
  unfolding mock_fst mock_snd set_sort_by by (rule generate_scores_drawn)

lemma mock_drawn_local:
  assumes "\<forall>i. p \<le> i \<and> i < snd (mockGenerateSequences R1 s p) \<longrightarrow> R1 i = R2 i"
  shows "mockGenerateSequences R1 s p = mockGenerateSequences R2 s p"
proof -
  have "generate R1 s 5 p = generate R2 s 5 p"
    using assms unfolding mock_snd by (rule generate_drawn_local)
  then show ?thesis by (simp only: mockGenerateSequences_def)
qed

section \<open>Scores\<close>

text \<open>
  Claim C1, as stated: the score of a candidate is the sum of the substitution-matrix
  entries over the aligned positions. Two runs on the sample input whose draws keep every
  residue return the input itself as each candidate, once with the score 13/4 and once
  with 23/8; and 13/4 is the alignment score of the input with itself under no integer
  matrix.
\<close>

theorem score_not_alignment_counterexample:
  "fst (mockGenerateSequences draws_half sample 0)
     = [\<lparr>sequence = sample, score = 13 / 4\<rparr>, \<lparr>sequence = sample, score = 13 / 4\<rparr>,
        \<lparr>sequence = sample, score = 13 / 4\<rparr>, \<lparr>sequence = sample, score = 13 / 4\<rparr>,
        \<lparr>sequence = sample, score = 13 / 4\<rparr>]
   \<and> fst (mockGenerateSequences draws_quarter sample 0)
     = [\<lparr>sequence = sample, score = 23 / 8\<rparr>, \<lparr>sequence = sample, score = 23 / 8\<rparr>,
        \<lparr>sequence = sample, score = 23 / 8\<rparr>, \<lparr>sequence = sample, score = 23 / 8\<rparr>,
        \<lparr>sequence = sample, score = 23 / 8\<rparr>]
   \<and> (\<forall>M. of_int (alignment_score M sample sample) \<noteq> (13 / 4 :: rat))"
  unfolding mock_half mock_quarter using not_int_13_4 by simp

text \<open>
  Claim C1, amended: the score of every entry that \<open>mockGenerateSequences\<close> returns is
  \<open>2.5 + r * 1.5\<close> in double arithmetic, for one of the values \<open>r\<close> that the call draws
  from the random source; and no residue enters a score: under the same draws, every
  input of the same length gets the same scores, rank by rank.
\<close>

theorem score_from_draw:
  "(\<forall>c \<in> set (fst (mockGenerateSequences R s p)).
      \<exists>i. p \<le> i \<and> i < snd (mockGenerateSequences R s p)
          \<and> score c = js_add (5 / 2) (js_mul (R i) (3 / 2)))
   \<and> (length s' = length s \<longrightarrow>
         map score (fst (mockGenerateSequences R s' p))
           = map score (fst (mockGenerateSequences R s p)))"
  using mock_scores_drawn [of R s p] mock_scores_length [of s' s R p] by blast

theorem score_from_draw_witness:
  "\<lparr>sequence = sample, score = 5 / 2\<rparr> \<in> set (fst (mockGenerateSequences draws_last sample 0))
   \<and> snd (mockGenerateSequences draws_last sample 0) = 259
   \<and> (\<exists>i. 0 \<le> i \<and> i < snd (mockGenerateSequences draws_last sample 0)
         \<and> score \<lparr>sequence = sample, score = 5 / 2\<rparr>
             = js_add (5 / 2) (js_mul (draws_last i) (3 / 2)))
   \<and> length sample_X_first = length sample
   \<and> map score (fst (mockGenerateSequences draws_last sample_X_first 0))
       = [13 / 4, 13 / 4, 13 / 4, 13 / 4, 5 / 2]"
proof -
  have m: "\<lparr>sequence = sample, score = 5 / 2\<rparr>
             \<in> set (fst (mockGenerateSequences draws_last sample 0))"
    unfolding mock_last by simp
  have e: "snd (mockGenerateSequences draws_last sample 0) = 259"
    unfolding mock_last by simp
  have l: "length sample_X_first = length sample" by simp
  have v: "map score (fst (mockGenerateSequences draws_last sample 0))
             = [13 / 4, 13 / 4, 13 / 4, 13 / 4, 5 / 2]"
    unfolding mock_last by simp
  have t: "(\<forall>c \<in> set (fst (mockGenerateSequences draws_last sample 0)).
      \<exists>i. 0 \<le> i \<and> i < snd (mockGenerateSequences draws_last sample 0)
          \<and> score c = js_add (5 / 2) (js_mul (draws_last i) (3 / 2)))
   \<and> (length sample_X_first = length sample \<longrightarrow>
         map score (fst (mockGenerateSequences draws_last sample_X_first 0))
           = map score (fst (mockGenerateSequences draws_last sample 0)))"
    by (rule score_from_draw)
  from t m have x: "\<exists>i. 0 \<le> i \<and> i < snd (mockGenerateSequences draws_last sample 0)
         \<and> score \<lparr>sequence = sample, score = 5 / 2\<rparr>
             = js_add (5 / 2) (js_mul (draws_last i) (3 / 2))"
    by blast
  from t l have y: "map score (fst (mockGenerateSequences draws_last sample_X_first 0))
           = map score (fst (mockGenerateSequences draws_last sample 0))"
    by blast
  show ?thesis using m e x l y unfolding v by blast
qed

section \<open>Order of the result\<close>

text \<open>
  Claim C2. For every list of scored candidates, the sort of \<open>mockGenerateSequences\<close>
  yields them by descending score, and the candidates of any one score keep the order
  they had in the input list; the result of \<open>mockGenerateSequences\<close> is that sort of
  the five entries in the order they were generated.
\<close>

theorem rank_descending_stable:
  "sorted_wrt (\<lambda>a b. score b \<le> score a) (sort_by compareFn xs)
   \<and> (\<forall>v. filter (\<lambda>c. score c = v) (sort_by compareFn xs) = filter (\<lambda>c. score c = v) xs)
   \<and> fst (mockGenerateSequences R s p) = sort_by compareFn (fst (generate R s 5 p))"
  by (simp add: sorted_sort_by filter_sort_by mock_fst)

section \<open>Dependence on the random source\<close>

text \<open>
  Claim C3, as stated: two calls with identical inputs return identical outputs. Two
  calls on the sample input return different lists when the random source yields 1/2
  throughout in one and 1/4 in the other.
\<close>

theorem hidden_state_counterexample:
  "mockGenerateSequences draws_half sample 0 \<noteq> mockGenerateSequences draws_quarter sample 0"
  unfolding mock_half mock_quarter by simp

text \<open>
  Claim C3, amended: \<open>mockGenerateSequences\<close> is a function of its input and of the
  values that the call draws from the random source. It draws at least \<open>5 * (L + 1)\<close>
  and at most \<open>5 * (2 * L + 1)\<close> values, \<open>L\<close> the length of the input, and a second call
  on the same input whose random source yields the values that the first call drew
  returns the same result and leaves the random source at the same position.
\<close>

theorem determined_by_draws:
  "(p + 5 * (length s + 1) \<le> snd (mockGenerateSequences R1 s p)
    \<and> snd (mockGenerateSequences R1 s p) \<le> p + 5 * (2 * length s + 1))
   \<and> ((\<forall>i. p \<le> i \<and> i < snd (mockGenerateSequences R1 s p) \<longrightarrow> R1 i = R2 i)
        \<longrightarrow> mockGenerateSequences R1 s p = mockGenerateSequences R2 s p)"
proof -
  have "(\<forall>i. p \<le> i \<and> i < snd (mockGenerateSequences R1 s p) \<longrightarrow> R1 i = R2 i)
        \<longrightarrow> mockGenerateSequences R1 s p = mockGenerateSequences R2 s p"
    using mock_drawn_local [of p R1 s R2] by blast
  moreover have "p + 5 * (length s + 1) \<le> snd (mockGenerateSequences R1 s p)
    \<and> snd (mockGenerateSequences R1 s p) \<le> p + 5 * (2 * length s + 1)"
    unfolding mock_snd using generate_pos [of p 5 s R1] by simp
  ultimately show ?thesis by blast
qed

theorem determined_by_draws_witness:
  "snd (mockGenerateSequences draws_half sample 0) = 255
   \<and> draws_half 255 \<noteq> draws_half_then_zero 255
   \<and> mockGenerateSequences draws_half sample 0
       = mockGenerateSequences draws_half_then_zero sample 0"
proof -
  have e: "snd (mockGenerateSequences draws_half sample 0) = 255"
    unfolding mock_half by simp
  have h: "\<forall>i. 0 \<le> i \<and> i < snd (mockGenerateSequences draws_half sample 0)
             \<longrightarrow> draws_half i = draws_half_then_zero i"
    unfolding e by (simp add: draws_half_def draws_half_then_zero_def)
  have d: "draws_half 255 \<noteq> draws_half_then_zero 255"
    by (simp add: draws_half_def draws_half_then_zero_def)
  show ?thesis
    using determined_by_draws [of 0 sample draws_half draws_half_then_zero] h d e by blast
qed

section \<open>Input errors\<close>

text \<open>
  Claim C4, as stated: an input with a residue outside the alphabet fails with an error
  that names the offending symbols and their positions. The input \<open>X\<close> of length 1
  fails with the length error instead, and two inputs of length 50 with \<open>X\<close> at the
  first and at the second position fail with one and the same error, which names the
  symbol only.
\<close>

theorem invalid_residue_counterexample:
  "generateSimilarSequences draws_half ''X'' Unavailable 0
     = (Inl (Error ''Protein sequence must be exactly 50 characters long''), 0)
   \<and> generateSimilarSequences draws_half sample_X_first Unavailable 0
     = (Inl (Error ''Invalid amino acid characters found: X''), 0)
   \<and> generateSimilarSequences draws_half sample_X_second Unavailable 0
     = (Inl (Error ''Invalid amino acid characters found: X''), 0)"
  unfolding generateSimilarSequences_def invalidChars_filter filter_X_first filter_X_second filter_X by simp

text \<open>
  Claim C4, amended: an input of length exactly 50 with a residue outside the alphabet
  makes \<open>generateSimilarSequences\<close> and \<open>predictSMILES\<close> fail with the error whose
  message lists the offending symbols, in their order of occurrence and separated by a
  comma and a space; no result is returned and no random number is drawn.
\<close>

theorem invalid_residue_error:
  "length s = 50 \<Longrightarrow> \<not> set s \<subseteq> set validAminoAcids \<Longrightarrow>
     generateSimilarSequences R s b p
       = (Inl (Error (''Invalid amino acid characters found: ''
                       @ join '', '' (map (\<lambda>c. [c]) (filter (\<lambda>c. c \<notin> set validAminoAcids) s)))), p)
     \<and> predictSMILES s b'
       = Inl (Error (''Invalid amino acid characters found: ''
                       @ join '', '' (map (\<lambda>c. [c]) (filter (\<lambda>c. c \<notin> set validAminoAcids) s))))"
proof -
  assume l: "length s = 50" and n: "\<not> set s \<subseteq> set validAminoAcids"
  have "invalidChars s \<noteq> []" using n by (auto simp: invalidChars_empty_iff)
  then have "0 < length (invalidChars s)" by simp
  moreover have "s \<noteq> []" using l by auto
  ultimately show ?thesis
    using l unfolding generateSimilarSequences_def predictSMILES_def invalidChars_filter [symmetric]
    by simp
qed

theorem invalid_residue_error_witness:
  "length sample_X_first = 50
   \<and> \<not> set sample_X_first \<subseteq> set validAminoAcids
   \<and> generateSimilarSequences draws_half sample_X_first Unavailable 0
       = (Inl (Error ''Invalid amino acid characters found: X''), 0)
   \<and> predictSMILES sample_X_first Unavailable
       = Inl (Error ''Invalid amino acid characters found: X'')"
proof -
  have l: "length sample_X_first = 50" by simp
  have n: "\<not> set sample_X_first \<subseteq> set validAminoAcids" by (simp add: validAminoAcids_def)
  have j: "''Invalid amino acid characters found: '' @ join '', '' (map (\<lambda>c. [c]) ''X'')
       = ''Invalid amino acid characters found: X''" by simp
  show ?thesis
    using invalid_residue_error [OF l n, of draws_half Unavailable 0 Unavailable] l n
    unfolding filter_X_first j by blast
qed

text \<open>
  Claim C5, as stated: an input whose length is not 50 makes the operation fail
  synchronously. The operation is an \<open>async\<close> function: on the input \<open>ACD\<close> the call
  does not throw, it returns a promise, rejected with the length error.
\<close>

theorem rejected_not_thrown_counterexample:
  "call_generateSimilarSequences draws_half ''ACD'' Unavailable 0
     = (Returns (Rejected (Error ''Protein sequence must be exactly 50 characters long'')), 0)
   \<and> fst (call_generateSimilarSequences draws_half ''ACD'' Unavailable 0)
     \<noteq> Throws (Error ''Protein sequence must be exactly 50 characters long'')
   \<and> call_predictSMILES ''ACD'' Unavailable
     = Returns (Rejected (Error ''Protein sequence must be exactly 50 characters long''))"
  by (simp add: call_generateSimilarSequences_def call_predictSMILES_def async_def
      generateSimilarSequences_def predictSMILES_def)

text \<open>
  Claim C5, amended: for an input whose length is not 50, a call of
  \<open>generateSimilarSequences\<close> or of \<open>predictSMILES\<close> returns a promise that is rejected
  with the length error, whatever the backend would answer; no result is returned and
  no random number has been drawn, so nothing was scored.
\<close>

theorem length_error_rejects:
  "length s \<noteq> 50 \<Longrightarrow>
     call_generateSimilarSequences R s b p
       = (Returns (Rejected (Error ''Protein sequence must be exactly 50 characters long'')), p)
     \<and> call_predictSMILES s b'
       = Returns (Rejected (Error ''Protein sequence must be exactly 50 characters long''))"
  by (simp add: call_generateSimilarSequences_def call_predictSMILES_def async_def
      generateSimilarSequences_def predictSMILES_def)

theorem length_error_rejects_witness:
  "length ''ACD'' \<noteq> 50
   \<and> call_generateSimilarSequences draws_quarter ''ACD'' (Replies []) 7
       = (Returns (Rejected (Error ''Protein sequence must be exactly 50 characters long'')), 7)
   \<and> call_predictSMILES ''ACD'' (Replies ''CCO'')
       = Returns (Rejected (Error ''Protein sequence must be exactly 50 characters long''))"
  using length_error_rejects [of "''ACD''" draws_quarter "Replies []" 7 "Replies ''CCO''"]
  by simp

section \<open>Size of the result\<close>

text \<open>
  Claim C6, as stated: the result has \<open>min(k, candidates.length)\<close> entries. The
  generator takes no \<open>k\<close>: for \<open>k = 1\<close> the result on the sample input does not have
  the length \<open>min 1 n\<close>, with \<open>n\<close> the number of generated candidates.
\<close>

theorem result_length_counterexample:
  "length (fst (mockGenerateSequences draws_half sample 0))
     \<noteq> min 1 (length (fst (generate draws_half sample 5 0)))"
  by (simp add: mock_fst length_sort_by generate_length)

text \<open>
  Claim C6, amended: \<open>mockGenerateSequences\<close> generates exactly 5 candidates and
  returns all 5 of them, for every input.
\<close>

theorem result_length_five:
  "length (fst (generate R s 5 p)) = 5 \<and> length (fst (mockGenerateSequences R s p)) = 5"
  by (simp add: mock_fst length_sort_by generate_length)

section \<open>The input among the candidates\<close>

text \<open>
  Claim C7, as stated: a candidate equal to the reference has the sum of the diagonal
  entries as its score, no candidate has a higher score, and it ranks first. On the
  sample input, with draws that keep the first candidate as it is and give it the score
  5/2, and that replace the first residue of the other four and give them the score
  13/4, the reference is the last entry of the result; and 5/2 is the alignment score of
  the input with itself under no integer matrix.
\<close>

theorem reference_last_counterexample:
  "fst (mockGenerateSequences draws_last sample 0)
     = [\<lparr>sequence = sample_M_first, score = 13 / 4\<rparr>,
        \<lparr>sequence = sample_M_first, score = 13 / 4\<rparr>,
        \<lparr>sequence = sample_M_first, score = 13 / 4\<rparr>,
        \<lparr>sequence = sample_M_first, score = 13 / 4\<rparr>,
        \<lparr>sequence = sample, score = 5 / 2\<rparr>]
   \<and> (\<forall>M. of_int (alignment_score M sample sample) \<noteq> (5 / 2 :: rat))"
  unfolding mock_last using not_int_5_2 by simp

text \<open>
  Claim C7, amended: every entry of the result, the input itself included when it is
  among the candidates, has the score \<open>2.5 + r * 1.5\<close> for one of the values \<open>r\<close> that
  the call draws, and it has the score of the first entry (it ranks first or ties for
  first) exactly when no entry has a higher score. Being equal to the input earns no
  rank: under the same draws, the score at each rank is the same for every input of the
  same length.
\<close>

theorem rank_by_mock_score_alone:
  "(\<forall>c \<in> set (fst (mockGenerateSequences R s p)).
      (\<exists>i. p \<le> i \<and> i < snd (mockGenerateSequences R s p)
           \<and> score c = js_add (5 / 2) (js_mul (R i) (3 / 2)))
      \<and> (score (hd (fst (mockGenerateSequences R s p))) = score c
           \<longleftrightarrow> (\<forall>d \<in> set (fst (mockGenerateSequences R s p)). score d \<le> score c)))
   \<and> (length s' = length s \<longrightarrow>
         (\<forall>k < 5. score (fst (mockGenerateSequences R s' p) ! k)
                    = score (fst (mockGenerateSequences R s p) ! k)))"
proof -
  let ?L = "fst (mockGenerateSequences R s p)"
  let ?L' = "fst (mockGenerateSequences R s' p)"
  have srt: "sorted_wrt (\<lambda>a b. score b \<le> score a) ?L" by (simp add: mock_fst sorted_sort_by)
  have len: "length ?L = 5" by (simp add: mock_fst length_sort_by generate_length)
  have len': "length ?L' = 5" by (simp add: mock_fst length_sort_by generate_length)
  from len have "?L \<noteq> []" by auto
  then have h: "hd ?L \<in> set ?L" by simp
  have first: "score (hd ?L) = score c \<longleftrightarrow> (\<forall>d \<in> set ?L. score d \<le> score c)"
    if c: "c \<in> set ?L" for c
  proof
    assume "score (hd ?L) = score c"
    then show "\<forall>d \<in> set ?L. score d \<le> score c" using hd_max [OF srt] by metis
  next
    assume a: "\<forall>d \<in> set ?L. score d \<le> score c"
    have "score (hd ?L) \<le> score c" using a h by blast
    moreover have "score c \<le> score (hd ?L)" using hd_max [OF srt c] .
    ultimately show "score (hd ?L) = score c" by simp
  qed
  have ranks: "\<forall>k < 5. score (?L' ! k) = score (?L ! k)" if l: "length s' = length s"
  proof (intro allI impI)
    fix k :: nat assume k: "k < 5"
    have "map score ?L' ! k = map score ?L ! k"
      using mock_scores_length [OF l, of R p] by simp
    then show "score (?L' ! k) = score (?L ! k)" using k len len' by simp
  qed
  show ?thesis using mock_scores_drawn [of R s p] first ranks by blast
qed

theorem rank_by_mock_score_alone_witness:
  "\<lparr>sequence = sample, score = 5 / 2\<rparr> \<in> set (fst (mockGenerateSequences draws_last sample 0))
   \<and> (\<exists>i. 0 \<le> i \<and> i < snd (mockGenerateSequences draws_last sample 0)
         \<and> score \<lparr>sequence = sample, score = 5 / 2\<rparr>
             = js_add (5 / 2) (js_mul (draws_last i) (3 / 2)))
   \<and> score (hd (fst (mockGenerateSequences draws_last sample 0)))
       \<noteq> score \<lparr>sequence = sample, score = 5 / 2\<rparr>
   \<and> \<not> list_all (\<lambda>d. score d \<le> score \<lparr>sequence = sample, score = 5 / 2\<rparr>)
           (fst (mockGenerateSequences draws_last sample 0))
   \<and> length sample_M_first = length sample
   \<and> score (fst (mockGenerateSequences draws_last sample_M_first 0) ! 4) = 5 / 2"
proof -
  let ?c = "\<lparr>sequence = sample, score = 5 / 2\<rparr>"
  let ?L = "fst (mockGenerateSequences draws_last sample 0)"
  have m: "?c \<in> set ?L" unfolding mock_last by simp
  have n: "\<not> list_all (\<lambda>d. score d \<le> score ?c) ?L" unfolding mock_last by simp
  have n': "\<not> (\<forall>d \<in> set ?L. score d \<le> score ?c)" using n unfolding list_all_iff .
  have l: "length sample_M_first = length sample" by simp
  have v: "score (?L ! 4) = 5 / 2" unfolding mock_last by simp
  have t: "(\<forall>c \<in> set ?L.
      (\<exists>i. 0 \<le> i \<and> i < snd (mockGenerateSequences draws_last sample 0)
           \<and> score c = js_add (5 / 2) (js_mul (draws_last i) (3 / 2)))
      \<and> (score (hd ?L) = score c \<longleftrightarrow> (\<forall>d \<in> set ?L. score d \<le> score c)))
   \<and> (length sample_M_first = length sample \<longrightarrow>
         (\<forall>k < 5. score (fst (mockGenerateSequences draws_last sample_M_first 0) ! k)
                    = score (?L ! k)))"
    by (rule rank_by_mock_score_alone)
  from t m have x: "\<exists>i. 0 \<le> i \<and> i < snd (mockGenerateSequences draws_last sample 0)
         \<and> score ?c = js_add (5 / 2) (js_mul (draws_last i) (3 / 2))"
    by blast
  from t m n' have y: "score (hd ?L) \<noteq> score ?c" by blast
  from t l have "\<forall>k < 5. score (fst (mockGenerateSequences draws_last sample_M_first 0) ! k)
                    = score (?L ! k)" by blast
  then have "score (fst (mockGenerateSequences draws_last sample_M_first 0) ! 4) = score (?L ! 4)"
    by simp
  then have z: "score (fst (mockGenerateSequences draws_last sample_M_first 0) ! 4) = 5 / 2"
    unfolding v .
  show ?thesis using m x y n l z by blast
qed

section \<open>Invariants of the mock generator\<close>

text \<open>
  Claim C8, as stated: every score lies in the half-open interval from 2.5 to 4.0. When
  the draw for a score is the largest double below 1, the product with 1.5 rounds to
  \<open>1.5 - 2 ^ - 52\<close> and the sum with 2.5 lies half way between two doubles and rounds to
  the even one, 4.
\<close>

theorem score_reaches_four_counterexample:
  "isValid (validateProteinSequence sample)
   \<and> random_source draws_top
   \<and> fst (mockGenerateSequences draws_top sample 0)
     = [\<lparr>sequence = sample, score = 4\<rparr>, \<lparr>sequence = sample, score = 13 / 4\<rparr>,
        \<lparr>sequence = sample, score = 13 / 4\<rparr>, \<lparr>sequence = sample, score = 13 / 4\<rparr>,
        \<lparr>sequence = sample, score = 13 / 4\<rparr>]
   \<and> \<not> score (hd (fst (mockGenerateSequences draws_top sample 0))) < 4"
proof -
  have v: "isValid (validateProteinSequence sample)"
    by (simp add: validateProteinSequence_def Let_def invalidChars_empty_iff validAminoAcids_def)
  have r: "random_source draws_top"
    using double_top double_half by (simp add: random_source_def draws_top_def)
  show ?thesis unfolding mock_top using v r by simp
qed

text \<open>
  Claim C8, amended: for an input that validation accepts and a random source of doubles
  in the half-open interval from 0 to 1, the result has exactly 5 entries, every
  sequence has the length of the input and only characters of the alphabet, and every
  score lies in the closed interval from 2.5 to 4.0.
\<close>

theorem mock_generator_invariants:
  assumes "isValid (validateProteinSequence s)" and "random_source R"
  shows "length (fst (mockGenerateSequences R s p)) = 5
     \<and> (\<forall>c \<in> set (fst (mockGenerateSequences R s p)).
           length (sequence c) = length s
           \<and> set (sequence c) \<subseteq> set validAminoAcids
           \<and> 5 / 2 \<le> score c \<and> score c \<le> 4)"
proof -
  have v: "set s \<subseteq> set validAminoAcids"
    using assms(1) by (auto simp: validateProteinSequence_def Let_def invalidChars_empty_iff split: if_splits)
  have "\<forall>c \<in> set (fst (generate R s 5 p)).
           length (sequence c) = length s
           \<and> set (sequence c) \<subseteq> set s \<union> set validAminoAcids
           \<and> 5 / 2 \<le> score c \<and> score c \<le> 4"
    using assms(2) by (rule generate_entries)
  then show ?thesis
    using v by (auto simp: mock_fst set_sort_by length_sort_by generate_length)
qed

theorem mock_generator_invariants_witness:
  "isValid (validateProteinSequence sample)
   \<and> random_source draws_half
   \<and> length (fst (mockGenerateSequences draws_half sample 0)) = 5
   \<and> list_all (\<lambda>c. length (sequence c) = length sample
                    \<and> set (sequence c) \<subseteq> set validAminoAcids
                    \<and> 5 / 2 \<le> score c \<and> score c \<le> 4)
        (fst (mockGenerateSequences draws_half sample 0))"
proof -
  have v: "isValid (validateProteinSequence sample)"
    by (simp add: validateProteinSequence_def Let_def invalidChars_empty_iff validAminoAcids_def)
  have r: "random_source draws_half"
    using double_half by (simp add: random_source_def draws_half_def)
  show ?thesis
    using mock_generator_invariants [OF v r, of 0] v r by (simp add: list_all_iff)
qed

section \<open>The mock structure predictor\<close>

text \<open>
  Claim C9. \<open>mockPredictSMILES\<close> is a function of the protein sequence alone: it returns
  the entry of the fixed list of 10 structure strings whose index is the absolute value
  of the hash of the sequence modulo 10, so it always returns an entry of that list and
  two calls on one input return one string.
\<close>

theorem mockPredictSMILES_in_list:
  "length commonSMILES = 10
   \<and> mockPredictSMILES s = commonSMILES ! (nat \<bar>sint (hash s)\<bar> mod 10)
   \<and> mockPredictSMILES s \<in> set commonSMILES"
proof -
  have l: "length commonSMILES = 10" by (simp add: commonSMILES_def)
  have "nat \<bar>sint (hash s)\<bar> mod 10 < length commonSMILES" by (simp add: l)
  then have "commonSMILES ! (nat \<bar>sint (hash s)\<bar> mod 10) \<in> set commonSMILES"
    by (rule nth_mem)
  then show ?thesis using l by (simp add: mockPredictSMILES_def Let_def)
qed

section \<open>Validation\<close>

text \<open>
  Claim C10. \<open>validateProteinSequence\<close> returns \<open>isValid = true\<close> if and only if the
  input is non-empty, has length exactly 50 and every character is in the alphabet
  \<open>ACDEFGHIKLMNPQRSTVWY\<close>; the returned list of errors is empty exactly in that case.
\<close>

theorem validateProteinSequence_isValid_iff:
  "(isValid (validateProteinSequence s) \<longleftrightarrow>
      s \<noteq> [] \<and> length s = 50 \<and> (\<forall>c \<in> set s. c \<in> set validAminoAcids))
   \<and> (isValid (validateProteinSequence s) \<longleftrightarrow> errors (validateProteinSequence s) = [])"
  by (simp add: validateProteinSequence_def Let_def invalidChars_empty_iff)

theorem validateProteinSequence_isValid_iff_witness:
  "isValid (validateProteinSequence sample)
   \<and> length sample = 50
   \<and> set sample \<subseteq> set validAminoAcids
   \<and> errors (validateProteinSequence sample)
       = []"
proof -
  let ?s = sample
  have a: "?s \<noteq> [] \<and> length ?s = 50 \<and> (\<forall>c \<in> set ?s. c \<in> set validAminoAcids)"
    by (simp add: validAminoAcids_def)
  show ?thesis using validateProteinSequence_isValid_iff [of ?s] a by blast
qed

end
